theory Spec2Isabelle
  imports Main "HOL-Library.Sublist"
begin

section \<open>Quota accounting (api/analyze.ts, lib/supabase.ts, components/AuthButton.tsx)\<close>

subsection \<open>Dates\<close>

text \<open>
  A JavaScript \<open>Date\<close> is represented by the local-time fields its accessors return:
  \<open>getFullYear()\<close>, \<open>getMonth()\<close> (0 to 11), \<open>getDate()\<close> and the milliseconds elapsed
  since local midnight. Two dates of one fixed-offset zone compare as their fields do,
  most significant first, which is how \<open>now >= resetAt\<close> is read here.
\<close>

record date =
  getFullYear :: int
  getMonth :: nat
  getDate :: nat
  msOfDay :: nat

definition date_ge :: "date \<Rightarrow> date \<Rightarrow> bool" where
  "date_ge a b =
     (getFullYear a > getFullYear b \<or>
      (getFullYear a = getFullYear b \<and>
        (getMonth a > getMonth b \<or>
         (getMonth a = getMonth b \<and>
           (getDate a > getDate b \<or>
            (getDate a = getDate b \<and> msOfDay a \<ge> msOfDay b))))))"

text \<open>
  \<open>new Date(y, m, 1)\<close>: local midnight of day 1. A month index past 11 carries into the
  year, and a year argument from 0 to 99 stands for 1900 plus that number, as the
  \<open>Date\<close> constructor has it.
\<close>

definition Date_y_m_1 :: "int \<Rightarrow> nat \<Rightarrow> date" where
  "Date_y_m_1 y m =
     \<lparr>getFullYear = (if 0 \<le> y \<and> y \<le> 99 then 1900 + y else y) + int (m div 12),
      getMonth = m mod 12, getDate = 1, msOfDay = 0\<rparr>"

subsection \<open>The users table\<close>

type_synonym user_id = string

record profile =
  plan :: string
  usage_count :: int
  period_reset_at :: date

record history_row =
  user_id :: user_id
  video_url :: "string option"
  video_storage_path :: "string option"
  analysis_result :: string

record store =
  users :: "user_id \<rightharpoonup> profile"
  analysis_history :: "history_row list"

text \<open>\<open>supabase.from('users').update(payload).eq('id', uid)\<close>: rewrites the row if there is one.\<close>

definition update_user :: "store \<Rightarrow> user_id \<Rightarrow> (profile \<Rightarrow> profile) \<Rightarrow> store" where
  "update_user s uid f =
     (case users s uid of
        None \<Rightarrow> s
      | Some r \<Rightarrow> s\<lparr>users := (users s)(uid \<mapsto> f r)\<rparr>)"

text \<open>The own properties of the \<open>PLAN_LIMITS\<close> object, the same in all three files.\<close>

definition PLAN_LIMITS :: "string \<rightharpoonup> int" where
  "PLAN_LIMITS = map_of [(''free'', 3), (''starter'', 30), (''pro'', 150)]"

text \<open>
  \<open>PLAN_LIMITS[profile.plan] || 3\<close>: a missing entry (and a zero one) gives 3. The
  names every object inherits, such as \<open>constructor\<close>, are not plan values and are read
  here as missing; the properties below that depend on the limit are stated for the
  three plans.
\<close>

definition plan_limit :: "string \<Rightarrow> int" where
  "plan_limit p =
     (case PLAN_LIMITS p of
        None \<Rightarrow> 3
      | Some n \<Rightarrow> if n = 0 then 3 else n)"

text \<open>
  The payload of the reset:
  \<open>{usage_count: 0, period_reset_at: new Date(now.getFullYear(), now.getMonth() + 1, 1)}\<close>.
\<close>

definition reset_payload :: "date \<Rightarrow> profile \<Rightarrow> profile" where
  "reset_payload now r =
     r\<lparr>usage_count := 0,
       period_reset_at := Date_y_m_1 (getFullYear now) (getMonth now + 1)\<rparr>"

text \<open>
  Lines 214 to 230 of the handler: the reset is written to the table, and the local
  \<open>currentUsage\<close> that the rest of the handler works with is returned beside the store.
\<close>

definition checkAndReset :: "store \<Rightarrow> user_id \<Rightarrow> profile \<Rightarrow> date \<Rightarrow> store \<times> int" where
  "checkAndReset s uid p now =
     (if date_ge now (period_reset_at p)
      then (update_user s uid (reset_payload now), 0)
      else (s, usage_count p))"

subsection \<open>The request handler\<close>

text \<open>
  What one invocation of the handler is given: the request, the clock, and the answers of
  the collaborators it awaits (token verification, the storage download or the URL fetch,
  the model call). \<open>credentials\<close> folds the \<open>Bearer\<close> header test and
  \<open>supabase.auth.getUser\<close> into their three outcomes.
\<close>

datatype http_method = OPTIONS | POST | OTHER

datatype credentials = NoBearer | InvalidToken | User user_id

datatype request_body = NoBody | Body "string option" "string option"

datatype download_outcome = Downloaded string | DownloadError | DownloadThrows string

datatype fetch_outcome = Fetched "string option" | FetchNotOk | FetchThrows string

datatype ai_outcome = Generated string | GenerateThrows string

record invocation =
  req_method :: http_method
  credentials :: credentials
  req_body :: request_body
  clock :: date
  download :: download_outcome
  fetch :: fetch_outcome
  generateContent :: ai_outcome

datatype response =
    Ended nat
  | ErrorJson nat string
  | LimitJson string int int
  | ResultJson string int int string

fun status :: "response \<Rightarrow> nat" where
  "status (Ended n) = n"
| "status (ErrorJson n e) = n"
| "status (LimitJson p u l) = 429"
| "status (ResultJson r c l p) = 200"

text \<open>A string operand of \<open>||\<close> and \<open>!\<close>: absent and empty are falsy.\<close>

fun truthy :: "string option \<Rightarrow> bool" where
  "truthy None = False"
| "truthy (Some v) = (v \<noteq> [])"

definition or_null :: "string option \<Rightarrow> string option" where
  "or_null v = (if truthy v then v else None)"

definition or_default :: "string \<Rightarrow> string \<Rightarrow> string" where
  "or_default v d = (if v = [] then d else v)"

text \<open>
  Lines 168 to 241: method and token checks, the profile read, the reset and the limit
  check. The result is either the response already sent or what the rest of the handler
  keeps in its local variables: the user, the profile as read, \<open>currentUsage\<close> and
  \<open>limit\<close>.
\<close>

type_synonym admitted = "user_id \<times> profile \<times> int \<times> int"

definition handler_admit :: "invocation \<Rightarrow> store \<Rightarrow> store \<times> (response + admitted)" where
  "handler_admit rq s =
     (if req_method rq = OPTIONS then (s, Inl (Ended 200))
      else if req_method rq \<noteq> POST then (s, Inl (ErrorJson 405 ''Method not allowed''))
      else case credentials rq of
        NoBearer \<Rightarrow> (s, Inl (ErrorJson 401 ''Missing authorization header''))
      | InvalidToken \<Rightarrow> (s, Inl (ErrorJson 401 ''Invalid token''))
      | User uid \<Rightarrow>
          (case users s uid of
             None \<Rightarrow> (s, Inl (ErrorJson 404 ''User profile not found''))
           | Some p \<Rightarrow>
               (let (s1, currentUsage) = checkAndReset s uid p (clock rq);
                    limit = plan_limit (plan p)
                in if currentUsage \<ge> limit
                   then (s1, Inl (LimitJson (plan p) currentUsage limit))
                   else (s1, Inr (uid, p, currentUsage, limit)))))"

text \<open>
  Lines 307 to 330: the increment writes the absolute value \<open>currentUsage + 1\<close>, the
  history row is inserted, and the 200 response is built.
\<close>

definition commit_usage ::
  "store \<Rightarrow> admitted \<Rightarrow> string option \<Rightarrow> string option \<Rightarrow> string \<Rightarrow> store \<times> response" where
  "commit_usage s a videoUrl storagePath analysisResult =
     (case a of (uid, p, currentUsage, limit) \<Rightarrow>
        (let s1 = update_user s uid (\<lambda>r. r\<lparr>usage_count := currentUsage + 1\<rparr>);
             s2 = s1\<lparr>analysis_history := analysis_history s1 @
                    [\<lparr>user_id = uid, video_url = or_null videoUrl,
                      video_storage_path = or_null storagePath,
                      analysis_result = analysisResult\<rparr>]\<rparr>
         in (s2, ResultJson analysisResult (currentUsage + 1) limit (plan p))))"

text \<open>
  Lines 283 to 305: the model call. A rejected promise lands in the \<open>catch\<close> block,
  which answers 500 with \<open>error.message || 'Internal server error'\<close>.
\<close>

definition internal_error :: "string \<Rightarrow> response" where
  "internal_error msg = ErrorJson 500 (or_default msg ''Internal server error'')"

definition call_model ::
  "invocation \<Rightarrow> store \<Rightarrow> admitted \<Rightarrow> string option \<Rightarrow> string option \<Rightarrow> store \<times> response" where
  "call_model rq s a videoUrl storagePath =
     (case generateContent rq of
        GenerateThrows msg \<Rightarrow> (s, internal_error msg)
      | Generated tx \<Rightarrow>
          commit_usage s a videoUrl storagePath (or_default tx ''No analysis generated.''))"

text \<open>
  Lines 243 to 281: the body is destructured (a \<open>TypeError\<close> when there is none, with
  the message of V8), then the video is downloaded from storage or fetched from the URL.
\<close>

definition handler_analyze :: "invocation \<Rightarrow> admitted \<Rightarrow> store \<Rightarrow> store \<times> response" where
  "handler_analyze rq a s =
     (case req_body rq of
        NoBody \<Rightarrow>
          (s, internal_error
             ''Cannot destructure property 'videoUrl' of 'req.body' as it is undefined.'')
      | Body videoUrl storagePath \<Rightarrow>
          if \<not> truthy videoUrl \<and> \<not> truthy storagePath
          then (s, ErrorJson 400 ''Missing videoUrl or storagePath'')
          else if truthy storagePath
          then (case download rq of
                  DownloadError \<Rightarrow> (s, ErrorJson 400 ''Failed to download video from storage'')
                | DownloadThrows msg \<Rightarrow> (s, internal_error msg)
                | Downloaded mimeType \<Rightarrow> call_model rq s a videoUrl storagePath)
          else (case fetch rq of
                  FetchNotOk \<Rightarrow> (s, ErrorJson 400 ''Failed to fetch video from URL'')
                | FetchThrows msg \<Rightarrow> (s, internal_error msg)
                | Fetched contentType \<Rightarrow> call_model rq s a videoUrl storagePath))"

definition handler :: "invocation \<Rightarrow> store \<Rightarrow> store \<times> response" where
  "handler rq s =
     (case handler_admit rq s of
        (s1, Inl r) \<Rightarrow> (s1, r)
      | (s1, Inr a) \<Rightarrow> handler_analyze rq a s1)"

text \<open>Requests served one after the other, each on the store the previous one left.\<close>

fun serve :: "store \<Rightarrow> invocation list \<Rightarrow> store \<times> response list" where
  "serve s [] = (s, [])"
| "serve s (rq # rqs) =
     (case handler rq s of (s1, r) \<Rightarrow>
        (case serve s1 rqs of (s2, rs) \<Rightarrow> (s2, r # rs)))"

subsection \<open>The client-side helpers\<close>

text \<open>
  \<open>canAnalyze\<close> of lib/supabase.ts. \<open>getUserProfile\<close> throws when the row is missing;
  \<open>PLAN_LIMITS[profile.plan]\<close> has no default here, so an unknown plan gives
  \<open>undefined\<close> (and \<open>NaN\<close> after the subtraction), written \<open>None\<close>.
\<close>

datatype client_error = ProfileError

definition canAnalyze ::
  "store \<Rightarrow> user_id \<Rightarrow> date \<Rightarrow> store \<times> (client_error + bool \<times> int option)" where
  "canAnalyze s userId now =
     (case users s userId of
        None \<Rightarrow> (s, Inl ProfileError)
      | Some p \<Rightarrow>
          if date_ge now (period_reset_at p)
          then (update_user s userId (reset_payload now), Inr (True, PLAN_LIMITS (plan p)))
          else (case PLAN_LIMITS (plan p) of
                  None \<Rightarrow> (s, Inr (False, None))
                | Some limit \<Rightarrow>
                    (let remaining = limit - usage_count p
                     in (s, Inr (remaining > 0, Some remaining)))))"

text \<open>
  The usage indicator of \<open>AuthButton\<close> and \<open>UsageAlert\<close>:
  \<open>limit = PLAN_LIMITS[profile?.plan || 'free']\<close>, \<open>usage = profile?.usage_count || 0\<close>,
  \<open>remaining = Math.max(0, limit - usage)\<close>.
\<close>

definition indicator_remaining :: "profile option \<Rightarrow> int option" where
  "indicator_remaining pr =
     (let limit = PLAN_LIMITS (case pr of None \<Rightarrow> ''free'' | Some p \<Rightarrow> or_default (plan p) ''free'');
          usage = (case pr of None \<Rightarrow> 0 | Some p \<Rightarrow> usage_count p)
      in case limit of
           None \<Rightarrow> None
         | Some l \<Rightarrow> Some (max 0 (l - usage)))"

section \<open>Section segmentation (components/AnalysisView.tsx)\<close>

text \<open>
  A JavaScript string is a sequence of code units; here it is a \<open>string\<close>, which covers
  the code units below 256. The character classes below are the JavaScript ones cut down
  to that range. \<open>trim()\<close> strips tab, line feed, vertical tab, form feed, carriage
  return, space and no-break space.
\<close>

definition is_space :: "char \<Rightarrow> bool" where
  "is_space c = (c \<in> set [CHR 0x09, CHR 0x0A, CHR 0x0B, CHR 0x0C, CHR 0x0D, CHR 0x20, CHR 0xA0])"

definition trim :: "string \<Rightarrow> string" where
  "trim s = rev (dropWhile is_space (rev (dropWhile is_space s)))"

text \<open>The class \<open>\d\<close>, and the line terminators that \<open>.\<close> refuses.\<close>

definition is_digit :: "char \<Rightarrow> bool" where
  "is_digit c = (c \<in> set ''0123456789'')"

definition is_line_terminator :: "char \<Rightarrow> bool" where
  "is_line_terminator c = (c = CHR 0x0A \<or> c = CHR 0x0D)"

text \<open>
  The group \<open>(#{1,3} |\d+\. )\<close> matched at the start of a string; the result is the text
  after the match. The two alternatives exclude each other, and within each the greedy
  quantifier can only stop at the end of the run of \<open>#\<close> or of digits.
\<close>

definition match_marker :: "string \<Rightarrow> string option" where
  "match_marker s =
     (if prefix ''### '' s then Some (drop 4 s)
      else if prefix ''## '' s then Some (drop 3 s)
      else if prefix ''# '' s then Some (drop 2 s)
      else if takeWhile is_digit s \<noteq> [] \<and> prefix ''. '' (dropWhile is_digit s)
      then Some (drop 2 (dropWhile is_digit s))
      else None)"

text \<open>The lookahead \<open>(?=\n#{1,3} |\n\d+\. )\<close> tried at the start of a string.\<close>

definition boundary_at :: "string \<Rightarrow> bool" where
  "boundary_at s =
     (case s of
        [] \<Rightarrow> False
      | c # r \<Rightarrow> c = CHR 0x0A \<and> match_marker r \<noteq> None)"

text \<open>
  \<open>content.split(regex)\<close> with a pattern that matches the empty string: the scan of
  \<open>RegExp.prototype[Symbol.split]\<close> walks the positions from left to right; a match at the
  start of the current chunk is skipped, any other match closes the chunk there, and the
  text after the last cut is the last chunk. \<open>cur\<close> is the chunk so far, the second
  argument the text not yet visited.
\<close>

fun split_from :: "string \<Rightarrow> string \<Rightarrow> string list" where
  "split_from cur [] = [cur]"
| "split_from cur (c # cs) =
     (if cur \<noteq> [] \<and> boundary_at (c # cs)
      then cur # split_from [c] cs
      else split_from (cur @ [c]) cs)"

definition rawSections :: "string \<Rightarrow> string list" where
  "rawSections content = split_from [] content"

definition sections :: "string \<Rightarrow> string list" where
  "sections content = filter (\<lambda>s. length s > 0) (map trim (rawSections content))"

text \<open>Group 2 of \<open>section.match(/^(#{1,3} |\d+\. )(.*)/)\<close>, when the pattern matches.\<close>

definition titleMatch :: "string \<Rightarrow> string option" where
  "titleMatch section =
     map_option (takeWhile (\<lambda>c. \<not> is_line_terminator c)) (match_marker section)"

definition title :: "string \<Rightarrow> string" where
  "title section =
     (case titleMatch section of
        Some t \<Rightarrow> t
      | None \<Rightarrow> ''Analysis Overview'')"

text \<open>\<open>section.replace(/^(#{1,3} |\d+\. )(.*)/, '').trim()\<close>\<close>

definition body :: "string \<Rightarrow> string" where
  "body section =
     trim (case match_marker section of
             None \<Rightarrow> section
           | Some r \<Rightarrow> dropWhile (\<lambda>c. \<not> is_line_terminator c) r)"

text \<open>\<open>toLowerCase()\<close> on code units below 256: the letters A to Z and the accented
  capitals 0xC0 to 0xDE, the multiplication sign 0xD7 apart.\<close>

definition lower_char :: "char \<Rightarrow> char" where
  "lower_char c =
     (let n = (of_char c :: nat)
      in if (65 \<le> n \<and> n \<le> 90) \<or> (192 \<le> n \<and> n \<le> 222 \<and> n \<noteq> 215)
         then char_of (n + 32) else c)"

definition toLowerCase :: "string \<Rightarrow> string" where
  "toLowerCase s = map lower_char s"

fun str_includes :: "string \<Rightarrow> string \<Rightarrow> bool" where
  "str_includes [] pat = (pat = [])"
| "str_includes (c # cs) pat = (prefix pat (c # cs) \<or> str_includes cs pat)"

definition isPromptSection :: "string \<Rightarrow> bool" where
  "isPromptSection section = str_includes (toLowerCase (title section)) ''prompt''"

text \<open>
  \<open>body.match(/```(?:markdown|text)?([\s\S]*?)```/)\<close>. \<open>lazy_until_fence\<close> is the lazy
  group followed by the closing fence: the shortest text after which a fence starts.
  \<open>match_fence_here\<close> is the pattern tried at one position, the optional tag first and,
  should the rest fail, without it. \<open>codeBlockMatch\<close> tries the positions from the left
  and gives group 1 of the first match.
\<close>

definition fence :: string where
  "fence = ''```''"

fun lazy_until_fence :: "string \<Rightarrow> string option" where
  "lazy_until_fence [] = None"
| "lazy_until_fence (c # cs) =
     (if prefix fence (c # cs) then Some []
      else map_option ((#) c) (lazy_until_fence cs))"

definition match_fence_here :: "string \<Rightarrow> string option" where
  "match_fence_here s =
     (if \<not> prefix fence s then None
      else let r = drop 3 s;
               tagged = (if prefix ''markdown'' r then lazy_until_fence (drop 8 r)
                         else if prefix ''text'' r then lazy_until_fence (drop 4 r)
                         else None)
           in case tagged of
                Some g \<Rightarrow> Some g
              | None \<Rightarrow> lazy_until_fence r)"

fun codeBlockMatch :: "string \<Rightarrow> string option" where
  "codeBlockMatch [] = None"
| "codeBlockMatch (c # cs) =
     (case match_fence_here (c # cs) of
        Some g \<Rightarrow> Some g
      | None \<Rightarrow> codeBlockMatch cs)"

text \<open>The text handed to \<open>handleCopy\<close>:
  \<open>isPromptSection && codeBlockMatch ? codeBlockMatch[1].trim() : section\<close>.\<close>

definition copy_text :: "string \<Rightarrow> string" where
  "copy_text section =
     (case codeBlockMatch (body section) of
        Some g \<Rightarrow> if isPromptSection section then trim g else section
      | None \<Rightarrow> section)"

section \<open>Notions used to state the properties\<close>

subsection \<open>Quota accounting\<close>

text \<open>The first instant of the first day of the calendar month after \<open>now\<close>.\<close>

definition next_month_start :: "date \<Rightarrow> date" where
  "next_month_start now =
     \<lparr>getFullYear = (if getMonth now = 11 then getFullYear now + 1 else getFullYear now),
      getMonth = (if getMonth now = 11 then 0 else getMonth now + 1),
      getDate = 1, msOfDay = 0\<rparr>"

text \<open>A \<open>POST\<close> whose token verifies as user \<open>uid\<close>.\<close>

definition authenticated_post :: "user_id \<Rightarrow> invocation \<Rightarrow> bool" where
  "authenticated_post uid rq = (req_method rq = POST \<and> credentials rq = User uid)"

text \<open>A request whose input is present and whose collaborators all answer: the video is
  obtained and the model returns.\<close>

definition analysable :: "invocation \<Rightarrow> bool" where
  "analysable rq =
     (case req_body rq of
        NoBody \<Rightarrow> False
      | Body videoUrl storagePath \<Rightarrow>
          (if truthy storagePath
           then (case download rq of Downloaded m \<Rightarrow> True | _ \<Rightarrow> False)
           else truthy videoUrl \<and> (case fetch rq of Fetched c \<Rightarrow> True | _ \<Rightarrow> False))
          \<and> (case generateContent rq of Generated t \<Rightarrow> True | _ \<Rightarrow> False))"

text \<open>
  Two invocations that overlap in time. The handler awaits the download and the model
  call between its limit check and its increment, so a second request can run its own
  check in between: here both requests are admitted before either one goes on.
\<close>

definition interleaved :: "invocation \<Rightarrow> invocation \<Rightarrow> store \<Rightarrow> store \<times> response list" where
  "interleaved rq1 rq2 s =
     (case handler_admit rq1 s of (s1, a1) \<Rightarrow>
      case handler_admit rq2 s1 of (s2, a2) \<Rightarrow>
      case (case a1 of Inl r \<Rightarrow> (s2, r) | Inr a \<Rightarrow> handler_analyze rq1 a s2) of (s3, r1) \<Rightarrow>
      case (case a2 of Inl r \<Rightarrow> (s3, r) | Inr a \<Rightarrow> handler_analyze rq2 a s3) of (s4, r2) \<Rightarrow>
        (s4, [r1, r2]))"

text \<open>Sample data: a free-plan account whose period ends on 1 December 2025, and a
  well-formed request for it at a given time.\<close>

definition ex_reset :: date where
  "ex_reset = \<lparr>getFullYear = 2025, getMonth = 11, getDate = 1, msOfDay = 0\<rparr>"

definition ex_before :: date where
  "ex_before = \<lparr>getFullYear = 2025, getMonth = 10, getDate = 20, msOfDay = 0\<rparr>"

definition ex_after :: date where
  "ex_after = \<lparr>getFullYear = 2025, getMonth = 11, getDate = 15, msOfDay = 1000\<rparr>"

definition ex_profile :: "int \<Rightarrow> profile" where
  "ex_profile n = \<lparr>plan = ''free'', usage_count = n, period_reset_at = ex_reset\<rparr>"

definition ex_store :: "int \<Rightarrow> store" where
  "ex_store n = \<lparr>users = [''u1'' \<mapsto> ex_profile n], analysis_history = []\<rparr>"

definition ex_request :: "date \<Rightarrow> invocation" where
  "ex_request t = \<lparr>req_method = POST, credentials = User ''u1'',
     req_body = Body None (Some ''u1/clip.mp4''), clock = t,
     download = Downloaded ''video/mp4'', fetch = FetchNotOk,
     generateContent = Generated ''1. VISUAL SPECS''\<rparr>"

subsection \<open>Section segmentation\<close>

text \<open>The positions of a document at which the boundary pattern matches, in ascending
  order.\<close>

definition boundaries :: "string \<Rightarrow> nat list" where
  "boundaries doc = filter (\<lambda>q. boundary_at (drop q doc)) [0..<length doc]"

text \<open>\<open>slices doc p qs\<close> cuts the part of \<open>doc\<close> from position \<open>p\<close> on at the ascending
  positions \<open>qs\<close>: each piece runs from one cut to the next, the last one to the end.\<close>

fun slices :: "string \<Rightarrow> nat \<Rightarrow> nat list \<Rightarrow> string list" where
  "slices doc p [] = [drop p doc]"
| "slices doc p (q # qs) = take (q - p) (drop p doc) # slices doc q qs"

text \<open>Sample documents and sections.\<close>

definition ex_specs :: string where
  "ex_specs = ''1. VISUAL SPECS\<newline>Colors: red''"

definition ex_prompt :: string where
  "ex_prompt = ''5. THE REPLICATION PROMPT\<newline>```markdown\<newline>Build X\<newline>```''"

definition ex_report :: string where
  "ex_report = ''Intro\<newline>## A\<newline>x\<newline>\<newline>2. B \<newline>#### C''"

definition ex_heading :: string where
  "ex_heading = ''# Summary\<newline>All good''"

section \<open>Properties of the quota accounting\<close>

subsection \<open>One request\<close>

lemma Date_next_month:
  "getMonth now < 12 \<Longrightarrow> 100 \<le> getFullYear now \<Longrightarrow>
     Date_y_m_1 (getFullYear now) (Suc (getMonth now)) = next_month_start now"
  by (auto simp: Date_y_m_1_def next_month_start_def)

lemma handler_admit_pass:
  assumes "users s uid = Some p" "authenticated_post uid rq"
    "\<not> date_ge (clock rq) (period_reset_at p)" "usage_count p < plan_limit (plan p)"
  shows "handler_admit rq s = (s, Inr (uid, p, usage_count p, plan_limit (plan p)))"
  using assms by (simp add: handler_admit_def checkAndReset_def authenticated_post_def)

lemma handler_analyze_commits:
  assumes "analysable rq"
  shows "\<exists>v sp tx. handler_analyze rq a s = commit_usage s a v sp tx"
proof (cases "req_body rq")
  case NoBody
  with assms show ?thesis by (simp add: analysable_def)
next
  case (Body v sp)
  obtain tx where g: "generateContent rq = Generated tx"
    using assms Body by (cases "generateContent rq") (simp_all add: analysable_def)
  show ?thesis
  proof (cases "truthy sp")
    case True
    with Body assms g show ?thesis
      by (cases "download rq") (auto simp: analysable_def handler_analyze_def call_model_def)
  next
    case False
    with Body assms g show ?thesis
      by (cases "fetch rq") (auto simp: analysable_def handler_analyze_def call_model_def)
  qed
qed

lemma commit_usage_result:
  assumes "users s uid = Some q"
  shows "users (fst (commit_usage s (uid, p, cu, l) v sp tx)) uid = Some (q\<lparr>usage_count := cu + 1\<rparr>)"
    and "snd (commit_usage s (uid, p, cu, l) v sp tx) = ResultJson tx (cu + 1) l (plan p)"
  using assms by (simp_all add: commit_usage_def update_user_def Let_def)

lemma handler_success:
  assumes "users s uid = Some p" "authenticated_post uid rq" "analysable rq"
    "\<not> date_ge (clock rq) (period_reset_at p)" "usage_count p < plan_limit (plan p)"
  shows "users (fst (handler rq s)) uid = Some (p\<lparr>usage_count := usage_count p + 1\<rparr>)"
    and "\<exists>tx. snd (handler rq s) = ResultJson tx (usage_count p + 1) (plan_limit (plan p)) (plan p)"
proof -
  let ?a = "(uid, p, usage_count p, plan_limit (plan p))"
  obtain v sp tx where c: "handler_analyze rq ?a s = commit_usage s ?a v sp tx"
    using handler_analyze_commits [OF assms(3)] by blast
  have h: "handler rq s = commit_usage s ?a v sp tx"
    using handler_admit_pass [OF assms(1,2,4,5)] c by (simp add: handler_def)
  show "users (fst (handler rq s)) uid = Some (p\<lparr>usage_count := usage_count p + 1\<rparr>)"
    using commit_usage_result(1) [OF assms(1)] h by simp
  show "\<exists>tx. snd (handler rq s) = ResultJson tx (usage_count p + 1) (plan_limit (plan p)) (plan p)"
    using commit_usage_result(2) [OF assms(1)] h by simp
qed

lemma handler_reject:
  assumes "users s uid = Some p" "authenticated_post uid rq"
    "\<not> date_ge (clock rq) (period_reset_at p)" "usage_count p \<ge> plan_limit (plan p)"
  shows "handler rq s = (s, LimitJson (plan p) (usage_count p) (plan_limit (plan p)))"
  using assms
  by (simp add: handler_def handler_admit_def checkAndReset_def authenticated_post_def)

subsection \<open>Consuming the allowance\<close>

lemma serve_within_limit:
  assumes "users s uid = Some p"
    "usage_count p + int (length rqs) \<le> plan_limit (plan p)"
    "\<forall>rq\<in>set rqs. authenticated_post uid rq \<and> analysable rq \<and>
       \<not> date_ge (clock rq) (period_reset_at p)"
  shows "users (fst (serve s rqs)) uid = Some (p\<lparr>usage_count := usage_count p + int (length rqs)\<rparr>)
       \<and> list_all (\<lambda>r. status r = 200) (snd (serve s rqs))"
  using assms
proof (induction rqs arbitrary: s p)
  case Nil
  then show ?case by simp
next
  case (Cons rq rqs)
  let ?p1 = "p\<lparr>usage_count := usage_count p + 1\<rparr>"
  obtain s1 r where h: "handler rq s = (s1, r)" by (cases "handler rq s")
  have lt: "usage_count p < plan_limit (plan p)" using Cons.prems(2) by simp
  have rq: "authenticated_post uid rq" "analysable rq" "\<not> date_ge (clock rq) (period_reset_at p)"
    using Cons.prems(3) by simp_all
  from handler_success [OF Cons.prems(1) rq lt] h
  have u1: "users s1 uid = Some ?p1" and r: "status r = 200" by auto
  have "users (fst (serve s1 rqs)) uid = Some (?p1\<lparr>usage_count := usage_count ?p1 + int (length rqs)\<rparr>)
       \<and> list_all (\<lambda>r. status r = 200) (snd (serve s1 rqs))"
    using Cons.prems by (intro Cons.IH [OF u1]) auto
  then show ?case using h r by (simp add: split_beta add.assoc add.commute)
qed

text \<open>
  C1. Take an account of plan \<open>free\<close>, \<open>starter\<close> or \<open>pro\<close> with \<open>usage_count = 0\<close>, and
  as many well-formed requests for it as the plan allows, all served before
  \<open>period_reset_at\<close>. Every one of them is answered 200 and the stored \<open>usage_count\<close>
  ends equal to the allowance. One more request before the reset date is answered 429
  with the plan, the usage count and the limit, and leaves the store as it was.
\<close>

theorem quota_exhausts_after_allowance:
  assumes "users s uid = Some p" and "usage_count p = 0"
    and "plan p \<in> {''free'', ''starter'', ''pro''}"
    and "int (length rqs) = plan_limit (plan p)"
    and "\<forall>rq\<in>set rqs. authenticated_post uid rq \<and> analysable rq \<and>
           \<not> date_ge (clock rq) (period_reset_at p)"
    and "authenticated_post uid rq'" and "\<not> date_ge (clock rq') (period_reset_at p)"
  shows "list_all (\<lambda>r. status r = 200) (snd (serve s rqs))
       \<and> users (fst (serve s rqs)) uid = Some (p\<lparr>usage_count := plan_limit (plan p)\<rparr>)
       \<and> handler rq' (fst (serve s rqs)) =
           (fst (serve s rqs), LimitJson (plan p) (plan_limit (plan p)) (plan_limit (plan p)))"
proof -
  let ?s = "fst (serve s rqs)" and ?p = "p\<lparr>usage_count := plan_limit (plan p)\<rparr>"
  have "users ?s uid = Some (p\<lparr>usage_count := usage_count p + int (length rqs)\<rparr>)
       \<and> list_all (\<lambda>r. status r = 200) (snd (serve s rqs))"
    using assms by (intro serve_within_limit) auto
  then have a: "users ?s uid = Some ?p" and b: "list_all (\<lambda>r. status r = 200) (snd (serve s rqs))"
    using assms(2,4) by auto
  have "handler rq' ?s = (?s, LimitJson (plan ?p) (usage_count ?p) (plan_limit (plan ?p)))"
    using assms(6,7) by (intro handler_reject [OF a]) auto
  then show ?thesis using a b by simp
qed

theorem quota_exhausts_after_allowance_witness:
  "list_all (\<lambda>r. status r = 200)
     (snd (serve (ex_store 0) [ex_request ex_before, ex_request ex_before, ex_request ex_before]))
   \<and> users (fst (serve (ex_store 0) [ex_request ex_before, ex_request ex_before, ex_request ex_before])) ''u1''
       = Some (ex_profile 3)
   \<and> snd (handler (ex_request ex_before)
        (fst (serve (ex_store 0) [ex_request ex_before, ex_request ex_before, ex_request ex_before])))
       = LimitJson ''free'' 3 3"
  using quota_exhausts_after_allowance [of "ex_store 0" "''u1''" "ex_profile 0"
      "[ex_request ex_before, ex_request ex_before, ex_request ex_before]" "ex_request ex_before"]
  by (simp add: ex_store_def ex_profile_def ex_request_def ex_before_def ex_reset_def
      authenticated_post_def analysable_def date_ge_def plan_limit_def PLAN_LIMITS_def)

subsection \<open>The monthly reset\<close>

text \<open>
  C2. For an account row \<open>p\<close> and a clock reading \<open>now\<close> (a month index below 12,
  a year from 100 on): before \<open>period_reset_at\<close> the reset
  step changes nothing, in the handler and in \<open>canAnalyze\<close> alike. From
  \<open>period_reset_at\<close> on it stores \<open>usage_count = 0\<close> and a \<open>period_reset_at\<close> that is the
  first instant of the first day of the month after \<open>now\<close>, whatever the old reset date
  was.
\<close>

theorem checkAndReset_month_rollover:
  assumes "users s uid = Some p" and "getMonth now < 12" and "100 \<le> getFullYear now"
  shows "(\<not> date_ge now (period_reset_at p) \<longrightarrow>
            checkAndReset s uid p now = (s, usage_count p) \<and>
            fst (canAnalyze s uid now) = s)
       \<and> (date_ge now (period_reset_at p) \<longrightarrow>
            checkAndReset s uid p now =
              (s\<lparr>users := (users s)(uid \<mapsto>
                   p\<lparr>usage_count := 0, period_reset_at := next_month_start now\<rparr>)\<rparr>, 0) \<and>
            fst (canAnalyze s uid now) = fst (checkAndReset s uid p now))"
  using assms
  by (auto simp: checkAndReset_def canAnalyze_def update_user_def reset_payload_def
      Date_next_month split: option.splits)

theorem checkAndReset_month_rollover_witness:
  "checkAndReset (ex_store 2) ''u1'' (ex_profile 2) ex_before = (ex_store 2, 2)
   \<and> checkAndReset (ex_store 2) ''u1'' (ex_profile 2) ex_after =
       ((ex_store 2)\<lparr>users := [''u1'' \<mapsto> \<lparr>plan = ''free'', usage_count = 0,
           period_reset_at = \<lparr>getFullYear = 2026, getMonth = 0, getDate = 1, msOfDay = 0\<rparr>\<rparr>]\<rparr>, 0)"
  using checkAndReset_month_rollover [of "ex_store 2" "''u1''" "ex_profile 2" ex_before]
    checkAndReset_month_rollover [of "ex_store 2" "''u1''" "ex_profile 2" ex_after]
  by (simp add: ex_store_def ex_profile_def ex_before_def ex_after_def ex_reset_def
      date_ge_def next_month_start_def)

subsection \<open>Failure paths\<close>

lemma call_model_failure:
  "status (snd (call_model rq s a v sp)) \<noteq> 200 \<Longrightarrow> fst (call_model rq s a v sp) = s"
  by (cases "generateContent rq"; cases a)
     (simp_all add: call_model_def commit_usage_def Let_def)

lemma handler_analyze_failure:
  assumes "status (snd (handler_analyze rq a s)) \<noteq> 200"
  shows "fst (handler_analyze rq a s) = s"
proof (cases "req_body rq")
  case NoBody
  then show ?thesis by (simp add: handler_analyze_def)
next
  case (Body v sp)
  show ?thesis
  proof (cases "truthy sp")
    case True
    with Body assms show ?thesis
      by (cases "download rq") (simp_all add: handler_analyze_def call_model_failure)
  next
    case False
    with Body assms show ?thesis
      by (cases "truthy v"; cases "fetch rq") (simp_all add: handler_analyze_def call_model_failure)
  qed
qed

lemma handler_admit_store:
  "fst (handler_admit rq s) = s
   \<or> (\<exists>uid p. req_method rq = POST \<and> credentials rq = User uid \<and> users s uid = Some p
        \<and> date_ge (clock rq) (period_reset_at p)
        \<and> fst (handler_admit rq s) = s\<lparr>users := (users s)(uid \<mapsto> reset_payload (clock rq) p)\<rparr>)"
proof (cases "req_method rq = POST")
  case False
  then show ?thesis by (simp add: handler_admit_def)
next
  case True
  show ?thesis
  proof (cases "credentials rq")
    case (User uid)
    show ?thesis
    proof (cases "users s uid")
      case None
      with True User show ?thesis by (simp add: handler_admit_def)
    next
      case (Some p)
      with True User show ?thesis
        by (cases "date_ge (clock rq) (period_reset_at p)")
           (simp_all add: handler_admit_def checkAndReset_def update_user_def Let_def)
    qed
  qed (use True in \<open>simp_all add: handler_admit_def\<close>)
qed

text \<open>
  C3, as the claim states it, fails: a request that arrives after \<open>period_reset_at\<close> with
  neither \<open>videoUrl\<close> nor \<open>storagePath\<close> is answered 400, and the stored \<open>usage_count\<close>
  has gone from 2 to 0.
\<close>

theorem failure_keeps_usage_counterexample:
  "status (snd (handler ((ex_request ex_after)\<lparr>req_body := Body None None\<rparr>) (ex_store 2))) = 400
   \<and> map_option usage_count (users (ex_store 2) ''u1'') = Some 2
   \<and> map_option usage_count
        (users (fst (handler ((ex_request ex_after)\<lparr>req_body := Body None None\<rparr>) (ex_store 2))) ''u1'')
       = Some 0"
  by (simp add: handler_def handler_admit_def handler_analyze_def checkAndReset_def update_user_def
      reset_payload_def ex_store_def ex_profile_def ex_request_def ex_after_def ex_reset_def
      date_ge_def plan_limit_def PLAN_LIMITS_def Date_y_m_1_def)

text \<open>
  C3, amended. A request that is not answered 200 never increments: it leaves the store
  as it was, or, when it is an authenticated \<open>POST\<close> arriving at or after the account's
  \<open>period_reset_at\<close>, it leaves the account row reset (\<open>usage_count = 0\<close> and
  \<open>period_reset_at\<close> advanced) and nothing else changed.
\<close>

theorem failure_never_increments:
  assumes "status (snd (handler rq s)) \<noteq> 200"
  shows "fst (handler rq s) = s
       \<or> (\<exists>uid p. req_method rq = POST \<and> credentials rq = User uid \<and> users s uid = Some p
            \<and> date_ge (clock rq) (period_reset_at p)
            \<and> fst (handler rq s) = s\<lparr>users := (users s)(uid \<mapsto> reset_payload (clock rq) p)\<rparr>)"
proof -
  obtain s1 x where h: "handler_admit rq s = (s1, x)" by (cases "handler_admit rq s")
  have "fst (handler rq s) = s1"
  proof (cases x)
    case (Inl r)
    with h show ?thesis by (simp add: handler_def)
  next
    case (Inr a)
    with h assms have "status (snd (handler_analyze rq a s1)) \<noteq> 200" by (simp add: handler_def)
    then have "fst (handler_analyze rq a s1) = s1" by (rule handler_analyze_failure)
    with h Inr show ?thesis by (simp add: handler_def)
  qed
  with handler_admit_store [of rq s] h show ?thesis by simp
qed

theorem failure_never_increments_witness:
  "fst (handler ((ex_request ex_after)\<lparr>generateContent := GenerateThrows ''overloaded''\<rparr>) (ex_store 2))
     = (ex_store 2)\<lparr>users := [''u1'' \<mapsto> (ex_profile 0)\<lparr>period_reset_at :=
          \<lparr>getFullYear = 2026, getMonth = 0, getDate = 1, msOfDay = 0\<rparr>\<rparr>]\<rparr>"
  using failure_never_increments
    [of "(ex_request ex_after)\<lparr>generateContent := GenerateThrows ''overloaded''\<rparr>" "ex_store 2"]
  by (simp add: handler_def handler_admit_def handler_analyze_def call_model_def checkAndReset_def
      update_user_def reset_payload_def internal_error_def or_default_def ex_store_def
      ex_profile_def ex_request_def ex_after_def ex_reset_def date_ge_def plan_limit_def
      PLAN_LIMITS_def Date_y_m_1_def)

subsection \<open>Overlapping requests\<close>

lemma interleaved_both_succeed:
  assumes "users s uid = Some p"
    "authenticated_post uid rq1" "analysable rq1" "\<not> date_ge (clock rq1) (period_reset_at p)"
    "authenticated_post uid rq2" "analysable rq2" "\<not> date_ge (clock rq2) (period_reset_at p)"
    "usage_count p < plan_limit (plan p)"
  shows "map status (snd (interleaved rq1 rq2 s)) = [200, 200]
       \<and> users (fst (interleaved rq1 rq2 s)) uid = Some (p\<lparr>usage_count := usage_count p + 1\<rparr>)"
proof -
  let ?a = "(uid, p, usage_count p, plan_limit (plan p))"
  have a1: "handler_admit rq1 s = (s, Inr ?a)" and a2: "handler_admit rq2 s = (s, Inr ?a)"
    using assms by (simp_all add: handler_admit_pass)
  obtain v1 sp1 t1 where c1: "handler_analyze rq1 ?a s = commit_usage s ?a v1 sp1 t1"
    using handler_analyze_commits [OF assms(3)] by blast
  obtain s3 r1 where r1: "commit_usage s ?a v1 sp1 t1 = (s3, r1)"
    by (cases "commit_usage s ?a v1 sp1 t1")
  have u3: "users s3 uid = Some (p\<lparr>usage_count := usage_count p + 1\<rparr>)" and st1: "status r1 = 200"
    using commit_usage_result [OF assms(1), of p "usage_count p" "plan_limit (plan p)" v1 sp1 t1] r1
    by simp_all
  obtain v2 sp2 t2 where c2: "handler_analyze rq2 ?a s3 = commit_usage s3 ?a v2 sp2 t2"
    using handler_analyze_commits [OF assms(6)] by blast
  obtain s4 r2 where r2: "commit_usage s3 ?a v2 sp2 t2 = (s4, r2)"
    by (cases "commit_usage s3 ?a v2 sp2 t2")
  have u4: "users s4 uid = Some (p\<lparr>usage_count := usage_count p + 1\<rparr>)" and st2: "status r2 = 200"
    using commit_usage_result [OF u3, of p "usage_count p" "plan_limit (plan p)" v2 sp2 t2] r2
    by simp_all
  have "interleaved rq1 rq2 s = (s4, [r1, r2])"
    by (simp add: interleaved_def a1 a2 c1 r1 c2 r2)
  then show ?thesis using u4 st1 st2 by simp
qed

text \<open>
  C4, as the claim states it, fails: with one unit left (free plan, \<open>usage_count = 2\<close>),
  two requests that are both admitted before either one increments are both answered
  200.
\<close>

theorem concurrent_consume_counterexample:
  "plan_limit (plan (ex_profile 2)) - usage_count (ex_profile 2) = 1
   \<and> map status (snd (interleaved (ex_request ex_before) (ex_request ex_before) (ex_store 2)))
       = [200, 200]"
  by (simp add: interleaved_def handler_admit_def handler_analyze_def call_model_def
      commit_usage_def checkAndReset_def update_user_def ex_store_def ex_profile_def
      ex_request_def ex_before_def ex_reset_def date_ge_def plan_limit_def PLAN_LIMITS_def)

text \<open>
  C4, amended. With one unit left on a \<open>free\<close>, \<open>starter\<close> or \<open>pro\<close> account, two
  well-formed requests served one after the other before \<open>period_reset_at\<close> give
  exactly one 200 and then one 429, and the stored \<open>usage_count\<close> ends at the limit.
  The read, the check and the increment are separate steps: when both requests are
  admitted before either one increments, both are answered 200, and since each writes
  the value it read plus one, the stored \<open>usage_count\<close> still ends at the limit.
\<close>

theorem consume_sequential_not_atomic:
  assumes "users s uid = Some p" and "plan p \<in> {''free'', ''starter'', ''pro''}"
    and "plan_limit (plan p) - usage_count p = 1"
    and "authenticated_post uid rq1" "analysable rq1" "\<not> date_ge (clock rq1) (period_reset_at p)"
    and "authenticated_post uid rq2" "analysable rq2" "\<not> date_ge (clock rq2) (period_reset_at p)"
  shows "map status (snd (serve s [rq1, rq2])) = [200, 429]
       \<and> users (fst (serve s [rq1, rq2])) uid = Some (p\<lparr>usage_count := plan_limit (plan p)\<rparr>)
       \<and> map status (snd (interleaved rq1 rq2 s)) = [200, 200]
       \<and> users (fst (interleaved rq1 rq2 s)) uid = Some (p\<lparr>usage_count := plan_limit (plan p)\<rparr>)"
proof -
  let ?p1 = "p\<lparr>usage_count := usage_count p + 1\<rparr>"
  have lt: "usage_count p < plan_limit (plan p)" and eq: "usage_count p + 1 = plan_limit (plan p)"
    using assms(3) by simp_all
  obtain s1 r1 where h1: "handler rq1 s = (s1, r1)" by (cases "handler rq1 s")
  from handler_success [OF assms(1) assms(4,5,6) lt] h1
  have u1: "users s1 uid = Some ?p1" and r1: "status r1 = 200" by auto
  have "handler rq2 s1 = (s1, LimitJson (plan ?p1) (usage_count ?p1) (plan_limit (plan ?p1)))"
    using assms(7,9) eq by (intro handler_reject [OF u1]) auto
  then have seq: "map status (snd (serve s [rq1, rq2])) = [200, 429]"
    "users (fst (serve s [rq1, rq2])) uid = Some (p\<lparr>usage_count := plan_limit (plan p)\<rparr>)"
    using h1 r1 u1 eq by simp_all
  show ?thesis
    using seq interleaved_both_succeed [OF assms(1) assms(4,5,6) assms(7,8,9) lt] eq by simp
qed

theorem consume_sequential_not_atomic_witness:
  "map status (snd (serve (ex_store 2) [ex_request ex_before, ex_request ex_before])) = [200, 429]
   \<and> map status (snd (interleaved (ex_request ex_before) (ex_request ex_before) (ex_store 2)))
       = [200, 200]
   \<and> users (fst (interleaved (ex_request ex_before) (ex_request ex_before) (ex_store 2))) ''u1''
       = Some (ex_profile 3)"
  using consume_sequential_not_atomic [of "ex_store 2" "''u1''" "ex_profile 2"
      "ex_request ex_before" "ex_request ex_before"]
  by (simp add: ex_store_def ex_profile_def ex_request_def ex_before_def ex_reset_def
      authenticated_post_def analysable_def date_ge_def plan_limit_def PLAN_LIMITS_def)

subsection \<open>Remaining allowance\<close>

lemma indicator_remaining_clamped:
  "indicator_remaining (Some p) = Some r \<Longrightarrow> r = max 0 (plan_limit (or_default (plan p) ''free'') - usage_count p)"
  by (auto simp: indicator_remaining_def plan_limit_def PLAN_LIMITS_def Let_def
      split: option.splits if_splits)

text \<open>
  C5. The usage indicator clamps the remaining allowance at zero, but \<open>canAnalyze\<close>
  returns the bare difference: for a free-plan account with \<open>usage_count = 5\<close>, before
  its reset date, it returns \<open>remaining = -2\<close>.
\<close>

theorem canAnalyze_negative_remaining:
  "snd (canAnalyze (ex_store 5) ''u1'' ex_before) = Inr (False, Some (- 2))"
  by (simp add: canAnalyze_def ex_store_def ex_profile_def ex_before_def ex_reset_def
      date_ge_def PLAN_LIMITS_def)

section \<open>Properties of the section segmentation\<close>

subsection \<open>Trimming and splitting\<close>

lemma concat_split_from: "concat (split_from cur rest) = cur @ rest"
  by (induction rest arbitrary: cur) auto

lemma concat_rawSections: "concat (rawSections doc) = doc"
  by (simp add: rawSections_def concat_split_from)

lemma filter_dropWhile_not: "filter (\<lambda>c. \<not> P c) (dropWhile P xs) = filter (\<lambda>c. \<not> P c) xs"
  by (induction xs) auto

lemma trim_keeps_content:
  "filter (\<lambda>c. \<not> is_space c) (trim s) = filter (\<lambda>c. \<not> is_space c) s"
proof -
  have "filter (\<lambda>c. \<not> is_space c) (trim s)
      = rev (filter (\<lambda>c. \<not> is_space c) (dropWhile is_space (rev (dropWhile is_space s))))"
    by (simp add: trim_def rev_filter)
  also have "\<dots> = rev (filter (\<lambda>c. \<not> is_space c) (rev (dropWhile is_space s)))"
    by (simp only: filter_dropWhile_not)
  also have "\<dots> = filter (\<lambda>c. \<not> is_space c) (dropWhile is_space s)"
    by (simp add: rev_filter)
  finally show ?thesis by (simp only: filter_dropWhile_not)
qed

lemma trim_Nil_iff: "trim s = [] \<longleftrightarrow> (\<forall>c\<in>set s. is_space c)"
proof
  assume "trim s = []"
  then have "filter (\<lambda>c. \<not> is_space c) s = []"
    using trim_keeps_content [of s] by simp
  then show "\<forall>c\<in>set s. is_space c" by (simp add: filter_empty_conv)
next
  assume "\<forall>c\<in>set s. is_space c"
  then have d: "dropWhile is_space s = []" by (induction s) auto
  show "trim s = []" unfolding trim_def d by simp
qed

lemma trim_ends:
  assumes "trim s \<noteq> []"
  shows "\<not> is_space (hd (trim s))" and "\<not> is_space (last (trim s))"
proof -
  let ?y = "dropWhile is_space s"
  let ?z = "dropWhile is_space (rev ?y)"
  have z: "?z \<noteq> []" using assms by (simp add: trim_def)
  then have hz: "\<not> is_space (hd ?z)" by (rule hd_dropWhile)
  then show "\<not> is_space (last (trim s))" using z by (simp add: trim_def last_rev)
  have y: "?y \<noteq> []" using z by (cases "?y = []") simp_all
  then have hy: "\<not> is_space (hd ?y)" by (rule hd_dropWhile)
  have "rev ?y = takeWhile is_space (rev ?y) @ ?z" by simp
  then have "?y = rev ?z @ rev (takeWhile is_space (rev ?y))"
    by (metis rev_append rev_rev_ident)
  then have "hd ?y = hd (rev ?z)" using z by (metis hd_append2 rev_is_Nil_conv)
  then show "\<not> is_space (hd (trim s))" using hy by (simp add: trim_def)
qed

lemma trim_fixed:
  assumes "s = [] \<or> (\<not> is_space (hd s) \<and> \<not> is_space (last s))"
  shows "trim s = s"
proof (cases "s = []")
  case True
  then show ?thesis by (simp add: trim_def)
next
  case False
  with assms have h: "\<not> is_space (hd s)" and l: "\<not> is_space (last s)" by auto
  have 1: "dropWhile is_space s = s" using h False by (simp add: dropWhile_eq_self_iff)
  have "hd (rev s) = last s" using False by (simp add: hd_rev)
  then have 2: "dropWhile is_space (rev s) = rev s" using l by (simp add: dropWhile_eq_self_iff)
  show ?thesis by (simp add: trim_def 1 2)
qed

lemma trim_idem: "trim (trim s) = trim s"
  using trim_ends [of s] by (intro trim_fixed) blast

lemma set_rawSections: "c \<in> set (rawSections doc) \<Longrightarrow> set c \<subseteq> set doc"
proof -
  assume "c \<in> set (rawSections doc)"
  then have "set c \<subseteq> set (concat (rawSections doc))" by auto
  then show ?thesis by (simp only: concat_rawSections)
qed

lemma boundaries_Nil_iff: "boundaries doc = [] \<longleftrightarrow> (\<forall>q<length doc. \<not> boundary_at (drop q doc))"
  by (auto simp: boundaries_def filter_empty_conv)

lemma split_from_no_boundary:
  "\<forall>q<length rest. \<not> boundary_at (drop q rest) \<Longrightarrow> split_from cur rest = [cur @ rest]"
proof (induction rest arbitrary: cur)
  case Nil
  then show ?case by simp
next
  case (Cons c cs)
  have 0: "\<not> boundary_at (c # cs)" using Cons.prems by force
  have "\<forall>q<length cs. \<not> boundary_at (drop q cs)"
  proof (intro allI impI)
    fix q assume "q < length cs"
    then have "\<not> boundary_at (drop (Suc q) (c # cs))" using Cons.prems by (metis Suc_less_eq length_Cons)
    then show "\<not> boundary_at (drop q cs)" by simp
  qed
  then have "split_from (cur @ [c]) cs = [(cur @ [c]) @ cs]" by (rule Cons.IH)
  then show ?case using 0 by simp
qed

lemma rawSections_no_boundary: "boundaries doc = [] \<Longrightarrow> rawSections doc = [doc]"
  by (simp add: rawSections_def boundaries_Nil_iff split_from_no_boundary)

lemma slices_split_from:
  assumes "doc = pre @ cur @ rest"
  shows "split_from cur rest =
     slices doc (length pre)
       (filter (\<lambda>q. length pre < q \<and> boundary_at (drop q doc))
          [length pre + length cur ..< length doc])"
  using assms
proof (induction rest arbitrary: pre cur)
  case Nil
  then show ?case by simp
next
  case (Cons c cs)
  let ?n = "length pre + length cur"
  let ?P = "\<lambda>q. length pre < q \<and> boundary_at (drop q doc)"
  have len: "length doc = Suc (?n + length cs)" using Cons.prems by simp
  have dn: "drop ?n doc = c # cs" using Cons.prems by simp
  have up: "[?n ..< length doc] = ?n # [Suc ?n ..< length doc]"
    by (rule upt_conv_Cons) (simp add: len)
  show ?case
  proof (cases "cur \<noteq> [] \<and> boundary_at (c # cs)")
    case True
    have sf: "split_from cur (c # cs) = cur # split_from [c] cs" using True by simp
    have ih: "split_from [c] cs =
        slices doc (length (pre @ cur))
          (filter (\<lambda>q. length (pre @ cur) < q \<and> boundary_at (drop q doc))
             [length (pre @ cur) + length [c] ..< length doc])"
      using Cons.prems by (intro Cons.IH) simp
    have f: "filter (\<lambda>q. length (pre @ cur) < q \<and> boundary_at (drop q doc)) [Suc ?n ..< length doc]
           = filter ?P [Suc ?n ..< length doc]"
      by (rule filter_cong) auto
    have ih': "split_from [c] cs = slices doc ?n (filter ?P [Suc ?n ..< length doc])"
      using ih f by simp
    have Pn: "?P ?n" using True by (simp add: dn)
    have fl: "filter ?P [?n ..< length doc] = ?n # filter ?P [Suc ?n ..< length doc]"
      unfolding up using Pn by simp
    have t: "take (?n - length pre) (drop (length pre) doc) = cur" using Cons.prems by simp
    show ?thesis unfolding sf fl slices.simps t ih' by (rule refl)
  next
    case False
    have sf: "split_from cur (c # cs) = split_from (cur @ [c]) cs" using False by auto
    have ih: "split_from (cur @ [c]) cs =
        slices doc (length pre) (filter ?P [length pre + length (cur @ [c]) ..< length doc])"
      using Cons.prems by (intro Cons.IH) simp
    have ih': "split_from (cur @ [c]) cs = slices doc (length pre) (filter ?P [Suc ?n ..< length doc])"
      using ih by simp
    have Pn: "\<not> ?P ?n" using False by (auto simp: dn)
    have fl: "filter ?P [?n ..< length doc] = filter ?P [Suc ?n ..< length doc]"
      unfolding up using Pn by simp
    show ?thesis unfolding sf fl ih' by (rule refl)
  qed
qed

lemma rawSections_slices:
  "rawSections doc = slices doc 0 (filter (\<lambda>q. 0 < q) (boundaries doc))"
  using slices_split_from [of doc "[]" "[]" doc]
  by (simp add: rawSections_def boundaries_def conj_commute)

lemma boundaries_zero:
  "boundaries doc = (if boundary_at doc then [0] else []) @ filter (\<lambda>q. 0 < q) (boundaries doc)"
proof (cases doc)
  case Nil
  then show ?thesis by (simp add: boundaries_def boundary_at_def)
next
  case (Cons c cs)
  then have "[0..<length doc] = 0 # [Suc 0..<length doc]" by (intro upt_conv_Cons) simp
  moreover have "filter (\<lambda>q. boundary_at (drop q doc)) [Suc 0..<length doc]
      = filter (\<lambda>q. 0 < q) (filter (\<lambda>q. boundary_at (drop q doc)) [Suc 0..<length doc])"
    by (simp, rule filter_cong) auto
  ultimately show ?thesis by (simp add: boundaries_def)
qed

lemma sections_slices:
  "sections doc = filter (\<lambda>s. s \<noteq> []) (map trim (slices doc 0 (boundaries doc)))"
proof -
  have "filter (\<lambda>s. s \<noteq> []) (map trim (slices doc 0 (boundaries doc)))
      = filter (\<lambda>s. s \<noteq> []) (map trim (slices doc 0 (filter (\<lambda>q. 0 < q) (boundaries doc))))"
    by (subst boundaries_zero) (simp add: trim_def)
  then show ?thesis by (simp add: sections_def rawSections_slices)
qed

lemma match_marker_iff:
  "match_marker s \<noteq> None \<longleftrightarrow>
     (\<exists>k r. 1 \<le> k \<and> k \<le> 3 \<and> s = replicate k CHR ''#'' @ '' '' @ r)
     \<or> (\<exists>ds r. ds \<noteq> [] \<and> (\<forall>d\<in>set ds. is_digit d) \<and> s = ds @ ''. '' @ r)"
  (is "?L \<longleftrightarrow> ?H \<or> ?D")
proof
  assume L: ?L
  show "?H \<or> ?D"
  proof (cases "prefix ''### '' s \<or> prefix ''## '' s \<or> prefix ''# '' s")
    case True
    then consider r where "s = ''### '' @ r" | r where "s = ''## '' @ r" | r where "s = ''# '' @ r"
      by (auto simp: prefix_def)
    then have ?H
    proof cases
      case 1
      then have "s = replicate 3 CHR ''#'' @ '' '' @ r" by (simp add: numeral_3_eq_3)
      then show ?thesis by (intro exI [of _ 3] exI [of _ r]) simp
    next
      case 2
      then have "s = replicate 2 CHR ''#'' @ '' '' @ r" by (simp add: numeral_2_eq_2)
      then show ?thesis by (intro exI [of _ 2] exI [of _ r]) simp
    next
      case 3
      then have "s = replicate 1 CHR ''#'' @ '' '' @ r" by simp
      then show ?thesis by (intro exI [of _ 1] exI [of _ r]) simp
    qed
    then show ?thesis ..
  next
    case False
    with L have d: "takeWhile is_digit s \<noteq> []" and p: "prefix ''. '' (dropWhile is_digit s)"
      by (auto simp: match_marker_def split: if_splits)
    from p obtain r where r: "dropWhile is_digit s = ''. '' @ r" by (auto simp: prefix_def)
    have "s = takeWhile is_digit s @ dropWhile is_digit s" by simp
    then have "s = takeWhile is_digit s @ ''. '' @ r" using r by simp
    moreover have "\<forall>d\<in>set (takeWhile is_digit s). is_digit d" by (auto dest: set_takeWhileD)
    ultimately have ?D using d by blast
    then show ?thesis ..
  qed
next
  assume "?H \<or> ?D"
  then show ?L
  proof
    assume ?H
    then obtain k r where k: "1 \<le> k" "k \<le> 3" and s: "s = replicate k CHR ''#'' @ '' '' @ r" by blast
    from k have "k = 1 \<or> k = 2 \<or> k = 3" by arith
    then show ?L using s
      by (auto simp: match_marker_def numeral_2_eq_2 numeral_3_eq_3)
  next
    assume ?D
    then obtain ds r where ds: "ds \<noteq> []" "\<forall>d\<in>set ds. is_digit d" and s: "s = ds @ ''. '' @ r"
      by blast
    have nd: "\<not> is_digit CHR ''.''" by (simp add: is_digit_def)
    have tw: "takeWhile is_digit s = ds" unfolding s using ds(2) nd
      by (simp add: takeWhile_append2)
    have dw: "dropWhile is_digit s = ''. '' @ r" unfolding s using ds(2) nd
      by (simp add: dropWhile_append2)
    obtain d ds' where c: "ds = d # ds'" using ds(1) by (cases ds) auto
    then have "is_digit d" using ds(2) by simp
    then have "d \<noteq> CHR ''#''" by (auto simp: is_digit_def)
    then have np: "\<not> prefix ''### '' s" "\<not> prefix ''## '' s" "\<not> prefix ''# '' s"
      by (simp_all add: s c)
    show ?L using np tw dw ds(1) by (simp add: match_marker_def)
  qed
qed

lemma boundary_at_iff:
  "boundary_at s \<longleftrightarrow>
     (\<exists>k r. 1 \<le> k \<and> k \<le> 3 \<and> s = CHR 0x0A # replicate k CHR ''#'' @ '' '' @ r)
     \<or> (\<exists>ds r. ds \<noteq> [] \<and> (\<forall>d\<in>set ds. is_digit d) \<and> s = CHR 0x0A # ds @ ''. '' @ r)"
proof (cases s)
  case Nil
  then show ?thesis by (simp add: boundary_at_def)
next
  case (Cons c t)
  show ?thesis
    unfolding Cons using match_marker_iff [of t]
    by (auto simp: boundary_at_def)
qed

subsection \<open>Where the document is cut\<close>

text \<open>
  C6. The boundary pattern matches at the start of a string exactly when the string
  is a newline followed by one to three \<open>#\<close> and a space, or a newline followed by a
  non-empty run of digits, a period and a space. The split cuts the document at every
  position after the first where the pattern matches, each piece starting at its
  boundary, and the pieces concatenate back to the document. The sections are the
  pieces between all boundary positions, trimmed, the empty ones dropped, in order. The
  document \<open>"1. VISUAL SPECS\nColors: red"\<close> gives one section, with title
  \<open>VISUAL SPECS\<close> and body \<open>Colors: red\<close>.
\<close>

theorem segmenter_splits_at_boundaries:
  "(boundary_at s \<longleftrightarrow>
      (\<exists>k r. 1 \<le> k \<and> k \<le> 3 \<and> s = CHR 0x0A # replicate k CHR ''#'' @ '' '' @ r)
      \<or> (\<exists>ds r. ds \<noteq> [] \<and> (\<forall>d\<in>set ds. is_digit d) \<and> s = CHR 0x0A # ds @ ''. '' @ r))
   \<and> rawSections doc = slices doc 0 (filter (\<lambda>q. 0 < q) (boundaries doc))
   \<and> concat (rawSections doc) = doc
   \<and> sections doc = filter (\<lambda>s. s \<noteq> []) (map trim (slices doc 0 (boundaries doc)))
   \<and> sections ex_specs = [ex_specs]
   \<and> title ex_specs = ''VISUAL SPECS''
   \<and> body ex_specs = ''Colors: red''"
proof -
  have "sections ex_specs = [ex_specs]" by code_simp
  moreover have "title ex_specs = ''VISUAL SPECS''" by code_simp
  moreover have "body ex_specs = ''Colors: red''" by code_simp
  ultimately show ?thesis
    using boundary_at_iff [of s] rawSections_slices [of doc] concat_rawSections [of doc]
      sections_slices [of doc]
    by blast
qed

lemma ex_report_eval:
  "boundaries ex_report = [5, 13]"
  "slices ex_report 0 [5, 13] = [''Intro'', ''\<newline>## A\<newline>x\<newline>'', ''\<newline>2. B \<newline>#### C'']"
  "sections ex_report = [''Intro'', ''## A\<newline>x'', ''2. B \<newline>#### C'']"
  by code_simp+

theorem segmenter_splits_at_boundaries_witness:
  "boundary_at (drop 5 ex_report) \<and> boundary_at (drop 13 ex_report)
   \<and> sections ex_report = [''Intro'', ''## A\<newline>x'', ''2. B \<newline>#### C'']
   \<and> sections ex_report = filter (\<lambda>s. s \<noteq> []) (map trim (slices ex_report 0 [5, 13]))"
proof -
  have b: "boundary_at (drop 5 ex_report)" "boundary_at (drop 13 ex_report)" by code_simp+
  show ?thesis
    using segmenter_splits_at_boundaries [of "drop 5 ex_report" ex_report] b
    by (simp add: ex_report_eval)
qed

subsection \<open>Documents without a boundary\<close>

lemma ex_heading_eval:
  "boundaries ex_heading = []" "sections ex_heading = [ex_heading]"
  "title ex_heading = ''Summary''" "trim ex_heading = ex_heading"
  "match_marker ex_heading = Some ''Summary\<newline>All good''"
  by code_simp+

text \<open>
  C8, as the claim states it, fails: the pattern matches nowhere in
  \<open>"# Summary\nAll good"\<close>, whose single section has the title \<open>Summary\<close>.
\<close>

theorem fallback_title_counterexample:
  "boundaries ex_heading = [] \<and> sections ex_heading = [ex_heading]
   \<and> title ex_heading \<noteq> ''Analysis Overview''"
  by (simp add: ex_heading_eval)

text \<open>
  C8, amended. A document in which the boundary pattern matches nowhere gives no
  section when it is empty or white space only, and otherwise exactly one section, the
  trimmed document. The title of that section is \<open>Analysis Overview\<close> when the trimmed
  document does not begin with a heading marker or a numbered prefix; when it does, the
  title is the rest of its first line.
\<close>

theorem unsplit_document_single_section:
  assumes "boundaries doc = []"
  shows "sections doc = (if trim doc = [] then [] else [trim doc])
       \<and> (match_marker (trim doc) = None \<longrightarrow> title (trim doc) = ''Analysis Overview'')
       \<and> (\<forall>r. match_marker (trim doc) = Some r \<longrightarrow>
             title (trim doc) = takeWhile (\<lambda>c. \<not> is_line_terminator c) r)"
  using rawSections_no_boundary [OF assms]
  by (simp add: sections_def title_def titleMatch_def)

theorem unsplit_document_single_section_witness:
  "sections ex_heading = [ex_heading] \<and> title ex_heading = ''Summary''
   \<and> sections ''plain text'' = [''plain text''] \<and> title ''plain text'' = ''Analysis Overview''"
proof -
  have e: "boundaries ''plain text'' = []" "trim ''plain text'' = ''plain text''"
    "match_marker ''plain text'' = None" "ex_heading \<noteq> []"
    "takeWhile (\<lambda>c. \<not> is_line_terminator c) ''Summary\<newline>All good'' = ''Summary''"
    by code_simp+
  show ?thesis
    using unsplit_document_single_section [of ex_heading]
      unsplit_document_single_section [of "''plain text''"]
    by (simp add: ex_heading_eval e)
qed

subsection \<open>Sections are never blank\<close>

text \<open>
  C10. Every section is non-empty and is its own trimmed form; a document that is
  empty or consists of white space only has no sections.
\<close>

theorem sections_nonempty_trimmed:
  "(\<forall>s\<in>set (sections doc). s \<noteq> [] \<and> trim s = s \<and> trim s \<noteq> [])
   \<and> ((\<forall>c\<in>set doc. is_space c) \<longrightarrow> sections doc = [])"
proof (intro conjI ballI impI)
  fix s assume "s \<in> set (sections doc)"
  then obtain c where s: "s = trim c" and ne: "s \<noteq> []"
    by (auto simp: sections_def)
  show "s \<noteq> []" by (rule ne)
  show ts: "trim s = s" by (simp add: s trim_idem)
  show "trim s \<noteq> []" using ts ne by simp
next
  assume a: "\<forall>c\<in>set doc. is_space c"
  have "trim c = []" if "c \<in> set (rawSections doc)" for c
    using set_rawSections [OF that] a by (auto simp: trim_Nil_iff)
  then show "sections doc = []"
    by (auto simp: sections_def filter_empty_conv)
qed

lemma ex_two_headings_eval: "sections ''\<newline># A \<newline>\<newline>\<newline>## B'' = [''# A'', ''## B'']"
  by code_simp

lemma ex_blank_eval: "sections [CHR 0x20, CHR 0x0A, CHR 0x09] = []"
  by code_simp

theorem sections_nonempty_trimmed_witness:
  "sections ''\<newline># A \<newline>\<newline>\<newline>## B'' = [''# A'', ''## B'']
   \<and> sections [CHR 0x20, CHR 0x0A, CHR 0x09] = []"
  using sections_nonempty_trimmed [of "''\<newline># A \<newline>\<newline>\<newline>## B''"]
    sections_nonempty_trimmed [of "[CHR 0x20, CHR 0x0A, CHR 0x09]"]
  by (simp add: ex_two_headings_eval ex_blank_eval)

subsection \<open>Reassembling the document\<close>

text \<open>
  C9, as the claim states it, fails: the documents \<open>"a\n# b"\<close> and
  \<open>"a\n\n# b"\<close> are both already trimmed and differ, yet they have the same sections,
  so nothing computed from the sections gives back both.
\<close>

theorem sections_roundtrip_counterexample:
  "sections ''a\<newline># b'' = sections ''a\<newline>\<newline># b''
   \<and> trim ''a\<newline># b'' \<noteq> trim ''a\<newline>\<newline># b''"
  by code_simp

lemma sections_keep_content_aux:
  "filter (\<lambda>c. \<not> is_space c) (concat (filter (\<lambda>s. length s > 0) (map trim xs)))
   = filter (\<lambda>c. \<not> is_space c) (concat xs)"
proof (induction xs)
  case Nil
  then show ?case by simp
next
  case (Cons x xs)
  have "filter (\<lambda>c. \<not> is_space c) (trim x) = filter (\<lambda>c. \<not> is_space c) x"
    by (rule trim_keeps_content)
  then show ?case using Cons by (cases "trim x = []") auto
qed

text \<open>
  C9, amended. The untrimmed pieces of the split concatenate back to the document
  exactly. The sections, concatenated in order, give back the document up to white
  space: the same characters other than white space, in the same order.
\<close>

theorem sections_roundtrip_modulo_space:
  "concat (rawSections doc) = doc
   \<and> filter (\<lambda>c. \<not> is_space c) (concat (sections doc)) = filter (\<lambda>c. \<not> is_space c) doc"
  using sections_keep_content_aux [of "rawSections doc"]
  by (simp add: sections_def concat_rawSections)

subsection \<open>The prompt section and the copy action\<close>

lemma str_includes_iff: "str_includes s pat \<longleftrightarrow> (\<exists>u v. s = u @ pat @ v)"
proof (induction s)
  case Nil
  then show ?case by auto
next
  case (Cons c cs)
  show ?case
  proof
    assume "str_includes (c # cs) pat"
    then consider "prefix pat (c # cs)" | "str_includes cs pat" by auto
    then show "\<exists>u v. c # cs = u @ pat @ v"
    proof cases
      case 1
      then obtain v where "c # cs = pat @ v" by (auto simp: prefix_def)
      then have "c # cs = [] @ pat @ v" by simp
      then show ?thesis by blast
    next
      case 2
      then obtain u v where "cs = u @ pat @ v" using Cons.IH by blast
      then have "c # cs = (c # u) @ pat @ v" by simp
      then show ?thesis by blast
    qed
  next
    assume "\<exists>u v. c # cs = u @ pat @ v"
    then obtain u v where e: "c # cs = u @ pat @ v" by blast
    show "str_includes (c # cs) pat"
    proof (cases u)
      case Nil
      with e have "prefix pat (c # cs)" by (simp add: prefix_def)
      then show ?thesis by simp
    next
      case (Cons a u')
      with e have "cs = u' @ pat @ v" by simp
      then have "str_includes cs pat" using Cons.IH by blast
      then show ?thesis by simp
    qed
  qed
qed

lemma fence_simps: "fence \<noteq> []" "length fence = 3" "drop 3 fence = []"
  "\<not> prefix fence []" "prefix fence (fence @ r)"
  "lazy_until_fence (fence @ r) = Some []" "match_fence_here [] = None"
  by (simp_all add: fence_def match_fence_here_def)

lemma lazy_until_fence_Some_iff:
  "(\<exists>z. lazy_until_fence s = Some z) \<longleftrightarrow> (\<exists>g post. s = g @ fence @ post)"
proof (induction s)
  case Nil
  then show ?case by (simp add: fence_simps)
next
  case (Cons c cs)
  show ?case
  proof (cases "prefix fence (c # cs)")
    case True
    then obtain post where "c # cs = [] @ fence @ post" by (auto simp: prefix_def)
    then have "\<exists>g post. c # cs = g @ fence @ post" by blast
    then show ?thesis using True by simp
  next
    case False
    have "(\<exists>g post. c # cs = g @ fence @ post) \<longleftrightarrow> (\<exists>g post. cs = g @ fence @ post)"
    proof
      assume "\<exists>g post. c # cs = g @ fence @ post"
      then obtain g post where e: "c # cs = g @ fence @ post" by blast
      show "\<exists>g post. cs = g @ fence @ post"
      proof (cases g)
        case Nil
        with e have "prefix fence (c # cs)" by (simp add: prefix_def)
        with False show ?thesis by simp
      next
        case (Cons a g')
        with e have "cs = g' @ fence @ post" by simp
        then show ?thesis by blast
      qed
    next
      assume "\<exists>g post. cs = g @ fence @ post"
      then obtain g post where "cs = g @ fence @ post" by blast
      then have "c # cs = (c # g) @ fence @ post" by simp
      then show "\<exists>g post. c # cs = g @ fence @ post" by blast
    qed
    then show ?thesis using False Cons.IH by simp
  qed
qed

lemma lazy_until_fence_None:
  "lazy_until_fence s = None \<longleftrightarrow> \<not> (\<exists>g post. s = g @ fence @ post)"
  using lazy_until_fence_Some_iff [of s] by auto

lemma lazy_until_fence_drop:
  assumes "lazy_until_fence s = None"
  shows "lazy_until_fence (drop n s) = None"
proof (rule ccontr)
  assume "lazy_until_fence (drop n s) \<noteq> None"
  then have "\<exists>g post. drop n s = g @ fence @ post"
    using lazy_until_fence_Some_iff [of "drop n s"] by auto
  then obtain g post where "drop n s = g @ fence @ post" by blast
  then have "s = (take n s @ g) @ fence @ post"
    by (metis append_assoc append_take_drop_id)
  then show False using assms lazy_until_fence_None [of s] by blast
qed

lemma lazy_until_fence_first:
  "\<forall>k<length g. \<not> prefix fence (drop k (g @ fence @ post))
   \<Longrightarrow> lazy_until_fence (g @ fence @ post) = Some g"
proof (induction g)
  case Nil
  then show ?case by (simp add: fence_simps)
next
  case (Cons c g)
  have 0: "\<not> prefix fence ((c # g) @ fence @ post)" using Cons.prems by force
  have "\<forall>k<length g. \<not> prefix fence (drop k (g @ fence @ post))"
  proof (intro allI impI)
    fix k assume "k < length g"
    then have "\<not> prefix fence (drop (Suc k) ((c # g) @ fence @ post))"
      using Cons.prems by (metis Suc_less_eq length_Cons)
    then show "\<not> prefix fence (drop k (g @ fence @ post))" by simp
  qed
  then have "lazy_until_fence (g @ fence @ post) = Some g" by (rule Cons.IH)
  then show ?case using 0 by simp
qed

lemma match_fence_here_None:
  "match_fence_here s = None \<longleftrightarrow> \<not> prefix fence s \<or> lazy_until_fence (drop 3 s) = None"
proof (cases "prefix fence s")
  case False
  then show ?thesis by (simp add: match_fence_here_def)
next
  case True
  show ?thesis
  proof (cases "lazy_until_fence (drop 3 s)")
    case None
    then have "lazy_until_fence (drop 8 (drop 3 s)) = None" "lazy_until_fence (drop 4 (drop 3 s)) = None"
      by (rule lazy_until_fence_drop)+
    then show ?thesis using True None by (simp add: match_fence_here_def Let_def)
  next
    case (Some g)
    then show ?thesis using True by (simp add: match_fence_here_def Let_def split: option.splits)
  qed
qed

lemma codeBlockMatch_None:
  "codeBlockMatch b = None \<longleftrightarrow> (\<forall>k<length b. match_fence_here (drop k b) = None)"
proof (induction b)
  case Nil
  then show ?case by simp
next
  case (Cons c cs)
  have "(\<forall>k<length (c # cs). match_fence_here (drop k (c # cs)) = None)
      \<longleftrightarrow> match_fence_here (c # cs) = None \<and> (\<forall>k<length cs. match_fence_here (drop k cs) = None)"
    by (auto simp: less_Suc_eq_0_disj)
  then show ?case using Cons.IH by (auto split: option.splits)
qed

lemma codeBlockMatch_None_iff:
  "codeBlockMatch b = None \<longleftrightarrow>
     \<not> (\<exists>pre mid post. b = pre @ fence @ mid @ fence @ post)"
proof
  assume n: "codeBlockMatch b = None"
  show "\<not> (\<exists>pre mid post. b = pre @ fence @ mid @ fence @ post)"
  proof
    assume "\<exists>pre mid post. b = pre @ fence @ mid @ fence @ post"
    then obtain pre mid post where b: "b = pre @ fence @ mid @ fence @ post" by blast
    have k: "length pre < length b" by (simp add: b fence_simps)
    have d: "drop (length pre) b = fence @ mid @ fence @ post" by (simp add: b)
    have "match_fence_here (drop (length pre) b) = None"
      using n k by (simp add: codeBlockMatch_None)
    then have "lazy_until_fence (mid @ fence @ post) = None"
      by (simp add: match_fence_here_None d fence_simps)
    then show False using lazy_until_fence_None [of "mid @ fence @ post"] by blast
  qed
next
  assume a: "\<not> (\<exists>pre mid post. b = pre @ fence @ mid @ fence @ post)"
  have "match_fence_here (drop k b) = None" for k
  proof (rule ccontr)
    assume "match_fence_here (drop k b) \<noteq> None"
    then have p: "prefix fence (drop k b)" and l: "lazy_until_fence (drop 3 (drop k b)) \<noteq> None"
      by (simp_all add: match_fence_here_None)
    from p obtain r where r: "drop k b = fence @ r" by (auto simp: prefix_def)
    with l have "lazy_until_fence r \<noteq> None" by (simp add: fence_simps)
    then have "\<exists>g post. r = g @ fence @ post"
      using lazy_until_fence_Some_iff [of r] by auto
    then obtain g post where "r = g @ fence @ post" by blast
    with r have "b = take k b @ fence @ g @ fence @ post"
      by (metis append_take_drop_id)
    with a show False by blast
  qed
  then show "codeBlockMatch b = None" by (simp add: codeBlockMatch_None)
qed

lemma codeBlockMatch_first:
  assumes "\<forall>k<length pre. \<not> prefix fence (drop k (pre @ s))"
    and "match_fence_here s = Some g"
  shows "codeBlockMatch (pre @ s) = Some g"
  using assms(1)
proof (induction pre)
  case Nil
  have "s \<noteq> []" using assms(2) by (auto simp: fence_simps)
  then obtain c cs where "s = c # cs" by (cases s) auto
  then show ?case using assms(2) by simp
next
  case (Cons a pre)
  have "\<not> prefix fence ((a # pre) @ s)" using Cons.prems by force
  then have 0: "match_fence_here ((a # pre) @ s) = None" by (simp add: match_fence_here_def)
  have "\<forall>k<length pre. \<not> prefix fence (drop k (pre @ s))"
  proof (intro allI impI)
    fix k assume "k < length pre"
    then have "\<not> prefix fence (drop (Suc k) ((a # pre) @ s))"
      using Cons.prems by (metis Suc_less_eq length_Cons)
    then show "\<not> prefix fence (drop k (pre @ s))" by simp
  qed
  then have "codeBlockMatch (pre @ s) = Some g" by (rule Cons.IH)
  then show ?case using 0 by simp
qed

lemma match_fence_here_tagged:
  assumes "tag = ''markdown'' \<or> tag = ''text'' \<or>
      (tag = [] \<and> \<not> prefix ''markdown'' (inner @ fence @ post)
                \<and> \<not> prefix ''text'' (inner @ fence @ post))"
    and "\<forall>k<length inner. \<not> prefix fence (drop k (inner @ fence @ post))"
  shows "match_fence_here (fence @ tag @ inner @ fence @ post) = Some inner"
proof -
  have l: "lazy_until_fence (inner @ fence @ post) = Some inner"
    using assms(2) by (rule lazy_until_fence_first)
  from assms(1) consider "tag = ''markdown''" | "tag = ''text''"
    | "tag = []" "\<not> prefix ''markdown'' (inner @ fence @ post)"
        "\<not> prefix ''text'' (inner @ fence @ post)"
    by blast
  then show ?thesis
  proof cases
    case 1
    then show ?thesis using l by (simp add: match_fence_here_def fence_simps)
  next
    case 2
    then show ?thesis using l by (simp add: match_fence_here_def fence_simps)
  next
    case 3
    then show ?thesis using l by (simp add: match_fence_here_def fence_simps)
  qed
qed

text \<open>
  C7. A section is the prompt section exactly when its lower-cased title contains
  \<open>prompt\<close>. When it is, and its body holds a fenced block (the first fence of the body,
  an optional tag \<open>markdown\<close> or \<open>text\<close>, the inner text, and the first fence after
  it), the copy action gives the trimmed inner text. When the section is not the prompt
  section, or its body holds no pair of fences, the copy action gives the whole section,
  title line included.
\<close>

theorem prompt_section_copy:
  "(isPromptSection section \<longleftrightarrow> (\<exists>u v. toLowerCase (title section) = u @ ''prompt'' @ v))
   \<and> (isPromptSection section
        \<and> body section = pre @ fence @ tag @ inner @ fence @ post
        \<and> (\<forall>k<length pre. \<not> prefix fence (drop k (body section)))
        \<and> (tag = ''markdown'' \<or> tag = ''text'' \<or>
             (tag = [] \<and> \<not> prefix ''markdown'' (inner @ fence @ post)
                       \<and> \<not> prefix ''text'' (inner @ fence @ post)))
        \<and> (\<forall>k<length inner. \<not> prefix fence (drop k (inner @ fence @ post)))
      \<longrightarrow> copy_text section = trim inner)
   \<and> (\<not> isPromptSection section
        \<or> \<not> (\<exists>pre mid post. body section = pre @ fence @ mid @ fence @ post)
      \<longrightarrow> copy_text section = section)"
proof (intro conjI impI)
  show "isPromptSection section \<longleftrightarrow> (\<exists>u v. toLowerCase (title section) = u @ ''prompt'' @ v)"
    by (simp add: isPromptSection_def str_includes_iff)
next
  assume a: "isPromptSection section
        \<and> body section = pre @ fence @ tag @ inner @ fence @ post
        \<and> (\<forall>k<length pre. \<not> prefix fence (drop k (body section)))
        \<and> (tag = ''markdown'' \<or> tag = ''text'' \<or>
             (tag = [] \<and> \<not> prefix ''markdown'' (inner @ fence @ post)
                       \<and> \<not> prefix ''text'' (inner @ fence @ post)))
        \<and> (\<forall>k<length inner. \<not> prefix fence (drop k (inner @ fence @ post)))"
  then have m: "match_fence_here (fence @ tag @ inner @ fence @ post) = Some inner"
    by (intro match_fence_here_tagged) blast+
  have b: "body section = pre @ (fence @ tag @ inner @ fence @ post)" using a by simp
  have "\<forall>k<length pre. \<not> prefix fence (drop k (pre @ (fence @ tag @ inner @ fence @ post)))"
    using a b by metis
  then have "codeBlockMatch (pre @ (fence @ tag @ inner @ fence @ post)) = Some inner"
    using m by (rule codeBlockMatch_first)
  then have "codeBlockMatch (body section) = Some inner" using b by simp
  then show "copy_text section = trim inner" using a by (simp add: copy_text_def)
next
  assume "\<not> isPromptSection section
        \<or> \<not> (\<exists>pre mid post. body section = pre @ fence @ mid @ fence @ post)"
  then have "\<not> isPromptSection section \<or> codeBlockMatch (body section) = None"
    by (simp only: codeBlockMatch_None_iff)
  then show "copy_text section = section"
    by (auto simp: copy_text_def split: option.splits)
qed

lemma ex_prompt_eval:
  "isPromptSection ex_prompt"
  "body ex_prompt = fence @ ''markdown'' @ ''\<newline>Build X\<newline>'' @ fence"
  "trim ''\<newline>Build X\<newline>'' = ''Build X''"
  "\<not> isPromptSection ex_specs"
  by code_simp+

lemma ex_prompt_first_fence:
  "\<forall>k<length ''\<newline>Build X\<newline>''. \<not> prefix fence (drop k (''\<newline>Build X\<newline>'' @ fence @ []))"
  by (simp add: All_less_Suc fence_def)

theorem prompt_section_copy_witness:
  "isPromptSection ex_prompt \<and> copy_text ex_prompt = ''Build X''
   \<and> \<not> isPromptSection ex_specs \<and> copy_text ex_specs = ex_specs"
  using prompt_section_copy [of ex_prompt "[]" "''markdown''" "''\<newline>Build X\<newline>''" "[]"]
    prompt_section_copy [of ex_specs] ex_prompt_first_fence
  by (simp add: ex_prompt_eval)

end
